theory Spec2Isabelle
  imports Main "HOL-Library.Word" "HOL-Library.Log_Nat"
begin

unbundle bit_operations_syntax

section \<open>Scalars of ecmath (crypto/ed25519/ecmath/scalar.go)\<close>

text \<open>
  A \<open>Scalar\<close> is Go's \<open>[32]byte\<close>, read as a little-endian number. The array is a list
  of bytes here; the fixed length 32 of the Go type appears as the hypothesis
  \<open>length z = 32\<close> wherever an operation indexes the array. Every method of the source
  writes its receiver and returns it; the functions below return the new contents of the
  receiver. Only \<open>Prune\<close> and \<open>Equal\<close> read the receiver's old contents, so only they take
  it as an argument.
\<close>

type_synonym byte = "8 word"
type_synonym Scalar = "byte list"

definition Zero :: Scalar where
  "Zero = replicate 32 0"

definition One :: Scalar where
  "One = 1 # replicate 31 0"

definition Cofactor :: Scalar where
  "Cofactor = 8 # replicate 31 0"

definition NegOne :: Scalar where
  "NegOne =
    [0xec, 0xd3, 0xf5, 0x5c, 0x1a, 0x63, 0x12, 0x58,
     0xd6, 0x9c, 0xf7, 0xa2, 0xde, 0xf9, 0xde, 0x14,
     0x00, 0x00, 0x00, 0x00, 0x00, 0x00, 0x00, 0x00,
     0x00, 0x00, 0x00, 0x00, 0x00, 0x00, 0x00, 0x10]"

definition L :: Scalar where
  "L =
    [0xed, 0xd3, 0xf5, 0x5c, 0x1a, 0x63, 0x12, 0x58,
     0xd6, 0x9c, 0xf7, 0xa2, 0xde, 0xf9, 0xde, 0x14,
     0x00, 0x00, 0x00, 0x00, 0x00, 0x00, 0x00, 0x00,
     0x00, 0x00, 0x00, 0x00, 0x00, 0x00, 0x00, 0x10]"

text \<open>The subgroup order as a number, as the comment on \<open>L\<close> writes it.\<close>

definition group_order :: nat where
  "group_order = 2 ^ 252 + 27742317777372353535851937790883648493"

subsection \<open>Little-endian reading and writing\<close>

fun le_nat :: "byte list \<Rightarrow> nat" where
  "le_nat [] = 0"
| "le_nat (b # bs) = unat b + 256 * le_nat bs"

fun le_bytes :: "nat \<Rightarrow> nat \<Rightarrow> byte list" where
  "le_bytes 0 v = []"
| "le_bytes (Suc n) v = of_nat v # le_bytes n (v div 256)"

subsection \<open>Constructors from machine integers\<close>

text \<open>
  \<open>binary.LittleEndian.PutUint64\<close> of Go's standard library stores the eight bytes of
  \<open>v\<close>, lowest first, into the first eight places of the slice it is given. It panics
  on a slice shorter than eight bytes; its only caller here passes \<open>s[:8]\<close>, of length 8.
\<close>

definition PutUint64 :: "byte list \<Rightarrow> 64 word \<Rightarrow> byte list" where
  "PutUint64 b v =
     b[0 := ucast v,
       1 := ucast (drop_bit 8 v),
       2 := ucast (drop_bit 16 v),
       3 := ucast (drop_bit 24 v),
       4 := ucast (drop_bit 32 v),
       5 := ucast (drop_bit 40 v),
       6 := ucast (drop_bit 48 v),
       7 := ucast (drop_bit 56 v)]"

text \<open>
  \<open>SetUint64\<close>: the scalar is set to \<open>Zero\<close>, then the slice \<open>s[:8]\<close>, which shares its
  storage with \<open>s\<close>, is overwritten.
\<close>

definition SetUint64 :: "64 word \<Rightarrow> Scalar" where
  "SetUint64 n = (let s = Zero in PutUint64 (take 8 s) n @ drop 8 s)"

text \<open>
  \<open>SetInt64\<close>: an \<open>int64\<close> is a 64-bit word read as two's complement; the conversion
  \<open>uint64(n)\<close> keeps the bits, and \<open>-n\<close> is the wrapping negation of the word.
\<close>

definition SetInt64 :: "64 word \<Rightarrow> Scalar" where
  "SetInt64 n = (if 0 \<le>s n then SetUint64 n else SetUint64 (- n))"

subsection \<open>The arithmetic engine\<close>

text \<open>
  Modelled from the spec: \<open>edwards25519.ScMulAdd\<close> of the package
  \<open>crypto/ed25519/internal/edwards25519\<close> is not among the sources. The specification
  describes it as: treat the three 32-byte inputs as 256-bit unsigned integers, compute
  the product \<open>a*b\<close> plus \<open>c\<close>, reduce the result modulo \<open>L\<close>, and return the canonical
  result as 32 little-endian bytes.
\<close>

definition ScMulAdd :: "byte list \<Rightarrow> byte list \<Rightarrow> byte list \<Rightarrow> byte list" where
  "ScMulAdd a b c = le_bytes 32 ((le_nat a * le_nat b + le_nat c) mod group_order)"

text \<open>
  Modelled from the spec: \<open>edwards25519.ScReduce\<close> of the same package is not among the
  sources. The specification describes it as: given a 512-bit (64-byte) little-endian
  unsigned integer, produce its canonical residue modulo \<open>L\<close> as 32 little-endian bytes.
\<close>

definition ScReduce :: "byte list \<Rightarrow> byte list" where
  "ScReduce x = le_bytes 32 (le_nat x mod group_order)"

definition MulAdd :: "Scalar \<Rightarrow> Scalar \<Rightarrow> Scalar \<Rightarrow> Scalar" where
  "MulAdd a b c = ScMulAdd a b c"

definition Add :: "Scalar \<Rightarrow> Scalar \<Rightarrow> Scalar" where
  "Add x y = MulAdd x One y"

definition Mul :: "Scalar \<Rightarrow> Scalar \<Rightarrow> Scalar" where
  "Mul x y = MulAdd x y Zero"

definition Sub :: "Scalar \<Rightarrow> Scalar \<Rightarrow> Scalar" where
  "Sub x y = MulAdd y NegOne x"

definition Neg :: "Scalar \<Rightarrow> Scalar" where
  "Neg x = MulAdd x NegOne Zero"

definition Reduce :: "byte list \<Rightarrow> Scalar" where
  "Reduce x = ScReduce x"

subsection \<open>Equality\<close>

text \<open>
  \<open>subtle.ConstantTimeByteEq\<close> and \<open>subtle.ConstantTimeCompare\<close> of Go's standard
  library: the bytes are XORed pairwise and the results ORed into one byte, which is
  then compared with 0 by a subtraction on 32 bits whose borrow is the answer.
\<close>

definition ConstantTimeByteEq :: "byte \<Rightarrow> byte \<Rightarrow> int" where
  "ConstantTimeByteEq x y = uint (drop_bit 31 ((ucast (x XOR y) :: 32 word) - 1))"

definition ConstantTimeCompare :: "byte list \<Rightarrow> byte list \<Rightarrow> int" where
  "ConstantTimeCompare x y =
     (if length x \<noteq> length y then 0
      else ConstantTimeByteEq
             (foldl (\<lambda>v i. v OR (x ! i XOR y ! i)) 0 [0..<length x]) 0)"

definition Equal :: "Scalar \<Rightarrow> Scalar \<Rightarrow> bool" where
  "Equal z x = (ConstantTimeCompare x z = 1)"

subsection \<open>Pruning\<close>

definition Prune :: "Scalar \<Rightarrow> Scalar" where
  "Prune z =
     (let z = z[0 := z ! 0 AND 248];
          z = z[31 := z ! 31 AND 127];
          z = z[31 := z ! 31 OR 64]
      in z)"

section \<open>Little-endian encoding: basic facts\<close>

lemma unat_byte_less: "unat (b :: byte) < 256"
  using unsigned_less [of b, where ?'a = nat] by simp

lemma length_le_bytes: "length (le_bytes n v) = n"
  by (induction n arbitrary: v) simp_all

lemma le_nat_bound: "le_nat bs < 256 ^ length bs"
proof (induction bs)
  case Nil
  show ?case by simp
next
  case (Cons b bs)
  have "unat b < 256"
    by (rule unat_byte_less)
  moreover have "le_nat bs + 1 \<le> 256 ^ length bs"
    using Cons.IH by simp
  then have "256 * (le_nat bs + 1) \<le> 256 * 256 ^ length bs"
    by (rule mult_le_mono2)
  ultimately show ?case by simp
qed

lemma le_nat_le_bytes: "le_nat (le_bytes n v) = v mod 256 ^ n"
proof (induction n arbitrary: v)
  case 0
  show ?case by simp
next
  case (Suc n)
  have "unat (of_nat v :: byte) = v mod 256"
    by (simp add: unat_of_nat)
  then have "le_nat (le_bytes (Suc n) v) = v mod 256 + 256 * ((v div 256) mod 256 ^ n)"
    using Suc.IH by simp
  also have "\<dots> = v mod 256 ^ Suc n"
    by (simp add: mod_mult2_eq)
  finally show ?case .
qed

lemma le_bytes_le_nat: "le_bytes (length bs) (le_nat bs) = bs"
proof (induction bs)
  case Nil
  show ?case by simp
next
  case (Cons b bs)
  have b: "unat b < 256"
    by (rule unat_byte_less)
  have "unat (of_nat n :: byte) = n mod 256" for n
    by (simp add: unat_of_nat)
  from this [of "unat b + 256 * le_nat bs"]
  have "unat (of_nat (unat b + 256 * le_nat bs) :: byte) = unat b"
    using b by simp
  then have "(of_nat (unat b + 256 * le_nat bs) :: byte) = b"
    by (simp only: word_unat_eq_iff)
  moreover have "(unat b + 256 * le_nat bs) div 256 = le_nat bs"
    using b by simp
  ultimately show ?case using Cons.IH by simp
qed

lemma le_nat_append: "le_nat (xs @ ys) = le_nat xs + 256 ^ length xs * le_nat ys"
  by (induction xs) (simp_all add: algebra_simps)

section \<open>Pruning: facts\<close>

lemma Prune_eq:
  "Prune z = z[0 := z ! 0 AND 248, 31 := (z ! 31 AND 127) OR 64]" if "length z = 32"
  using that by (simp add: Prune_def Let_def)

lemma length_Prune: "length (Prune z) = length z"
  by (simp add: Prune_def Let_def)

lemma clamp_low_idem: "(b AND 248) AND 248 = (b AND 248 :: byte)"
  by (simp add: and.assoc)

lemma clamp_high_idem: "(((b AND 127) OR 64) AND 127) OR 64 = ((b AND 127) OR 64 :: byte)"
  by (simp add: bit.conj_disj_distrib2 and.assoc or.assoc)

lemma clamp_low_mod8: "unat (b AND 248 :: byte) mod 8 = 0"
proof -
  have "unat (take_bit 3 (b AND 248)) = take_bit 3 (unat (b AND 248))"
    by (rule unsigned_take_bit_eq)
  also have "\<dots> = unat (b AND 248) mod 2 ^ 3"
    by (rule take_bit_eq_mod)
  finally have "unat (b AND 248) mod 8 = unat (take_bit 3 (b AND 248))"
    by simp
  also have "take_bit 3 (b AND 248) = b AND (248 AND 7)"
    by (simp add: take_bit_eq_mask mask_numeral and.assoc)
  also have "(248 AND 7 :: byte) = 0" by simp
  finally show ?thesis by simp
qed

lemma clamp_high_bounds:
  "64 \<le> unat ((b AND 127) OR 64 :: byte)" "unat ((b AND 127) OR 64 :: byte) < 128"
proof -
  have "(64 :: byte) \<le> (b AND 127) OR 64"
    by (rule le_word_or1)
  then show "64 \<le> unat ((b AND 127) OR 64)"
    by (simp add: word_le_nat_alt)
  have "(b AND 127) OR 64 = (b OR 64) AND 127"
    by (simp add: bit.conj_disj_distrib2)
  moreover have "(b OR 64) AND 127 \<le> 127"
    by (rule word_and_le1)
  ultimately have "(b AND 127) OR 64 \<le> 127" by simp
  then show "unat ((b AND 127) OR 64) < 128"
    by (simp add: word_le_nat_alt)
qed

lemma le_nat_split:
  assumes "length z = 32"
  shows "le_nat z = le_nat (take 31 z) + 256 ^ 31 * unat (z ! 31)"
proof -
  have "take (Suc 31) z = take 31 z @ [z ! 31]"
    using assms by (intro take_Suc_conv_app_nth) simp
  moreover have "take (Suc 31) z = z"
    using assms by simp
  ultimately have "le_nat z = le_nat (take 31 z @ [z ! 31])" by simp
  also have "\<dots> = le_nat (take 31 z) + 256 ^ 31 * unat (z ! 31)"
    using assms by (simp only: le_nat_append) simp
  finally show ?thesis .
qed

lemma le_nat_mod8:
  assumes "0 < length z"
  shows "le_nat z mod 8 = unat (z ! 0) mod 8"
proof (cases z)
  case Nil
  then show ?thesis using assms by simp
next
  case (Cons b bs)
  have "(unat b + 256 * le_nat bs) mod 8 = (unat b + 8 * (32 * le_nat bs)) mod 8"
    by simp
  also have "\<dots> = unat b mod 8"
    by (rule mod_mult_self2)
  finally show ?thesis using Cons by simp
qed

lemma Prune_nth_0: "length z = 32 \<Longrightarrow> Prune z ! 0 = z ! 0 AND 248"
  by (simp add: Prune_eq)

lemma Prune_nth_31: "length z = 32 \<Longrightarrow> Prune z ! 31 = (z ! 31 AND 127) OR 64"
  by (simp add: Prune_eq)

lemma Prune_nth_mid:
  "length z = 32 \<Longrightarrow> 1 \<le> i \<Longrightarrow> i \<le> 30 \<Longrightarrow> Prune z ! i = z ! i"
  by (simp add: Prune_eq)

lemma Prune_value_bounds:
  assumes "length z = 32"
  shows "2 ^ 254 \<le> le_nat (Prune z)" and "le_nat (Prune z) < 2 ^ 255"
proof -
  let ?p = "Prune z"
  have len: "length ?p = 32"
    using assms by (simp add: length_Prune)
  have split: "le_nat ?p = le_nat (take 31 ?p) + 256 ^ 31 * unat (?p ! 31)"
    using len by (rule le_nat_split)
  have hi: "64 \<le> unat (?p ! 31)" "unat (?p ! 31) < 128"
    using assms by (simp_all add: Prune_nth_31 clamp_high_bounds)
  have lo: "le_nat (take 31 ?p) < 256 ^ 31"
    using le_nat_bound [of "take 31 ?p"] len by simp
  have "(2::nat) ^ 254 = 256 ^ 31 * 64" by simp
  also have "\<dots> \<le> 256 ^ 31 * unat (?p ! 31)"
    using hi(1) by (rule mult_le_mono2)
  finally show "2 ^ 254 \<le> le_nat ?p"
    using split by simp
  have "unat (?p ! 31) + 1 \<le> 128" using hi(2) by simp
  then have "256 ^ 31 * (unat (?p ! 31) + 1) \<le> 256 ^ 31 * 128"
    by (rule mult_le_mono2)
  then have "256 ^ 31 * unat (?p ! 31) + 256 ^ 31 \<le> (2::nat) ^ 255"
    by simp
  then show "le_nat ?p < 2 ^ 255"
    using split lo by linarith
qed

text \<open>
  C7: for every 32-byte input \<open>x\<close>, the result of \<open>Prune\<close>, read as a little-endian
  number, is a multiple of 8 (the low three bits of byte 0 are cleared) and has bit length
  exactly 255, that is, it lies in \<open>[2^254, 2^255)\<close>: bit 7 of byte 31 is cleared and
  bit 6 of byte 31 is set.
\<close>

theorem Prune_clamps:
  assumes "length x = 32"
  shows "le_nat (Prune x) mod 8 = 0
       \<and> bitlen (int (le_nat (Prune x))) = 255
       \<and> 2 ^ 254 \<le> le_nat (Prune x) \<and> le_nat (Prune x) < 2 ^ 255
       \<and> Prune x ! 0 AND 7 = 0
       \<and> \<not> bit (Prune x ! 31) 7
       \<and> bit (Prune x ! 31) 6"
proof -
  let ?v = "le_nat (Prune x)"
  have len: "0 < length (Prune x)"
    using assms by (simp add: length_Prune)
  have m8: "?v mod 8 = 0"
    using le_nat_mod8 [OF len] assms by (simp add: Prune_nth_0 clamp_low_mod8)
  have b: "2 ^ 254 \<le> ?v" "?v < 2 ^ 255"
    using assms by (rule Prune_value_bounds)+
  have "bitlen (int ?v) \<le> 255"
    using b(2) by (simp add: bitlen_le_iff_power)
  moreover have "255 \<le> bitlen (int ?v)"
    using b(1) by (simp add: bitlen_ge_iff_power)
  ultimately have bl: "bitlen (int ?v) = 255" by simp
  have "(x ! 0 AND 248) AND 7 = x ! 0 AND (248 AND 7)"
    by (simp only: and.assoc)
  then have low: "Prune x ! 0 AND 7 = 0"
    using assms by (simp add: Prune_nth_0)
  have top: "\<not> bit (Prune x ! 31) 7" "bit (Prune x ! 31) 6"
    using assms by (simp_all add: Prune_nth_31 bit_or_iff bit_and_iff)
  show ?thesis using m8 bl b low top by simp
qed

theorem Prune_clamps_witness:
  "length (replicate 32 (255 :: byte)) = 32
   \<and> le_nat (Prune (replicate 32 255)) mod 8 = 0
   \<and> bitlen (int (le_nat (Prune (replicate 32 255)))) = 255
   \<and> Prune (replicate 32 255) ! 31 = 127"
proof -
  have h: "length (replicate 32 (255 :: byte)) = 32" by simp
  have "Prune (replicate 32 255) ! 31 = 127"
    by (simp add: Prune_def Let_def)
  then show ?thesis using h Prune_clamps [OF h] by simp
qed

text \<open>
  C8: \<open>Prune\<close> is idempotent: on every 32-byte input, applying it twice gives the same
  bytes as applying it once.
\<close>

theorem Prune_idempotent:
  assumes "length x = 32"
  shows "Prune (Prune x) = Prune x"
proof -
  have len: "length (Prune x) = 32"
    using assms by (simp add: length_Prune)
  show ?thesis
    unfolding Prune_eq [OF len]
    using assms
    by (simp add: Prune_eq clamp_low_idem clamp_high_idem list_update_swap)
qed

theorem Prune_idempotent_witness:
  "length L = 32 \<and> Prune (Prune L) = Prune L"
proof -
  have h: "length L = 32" by (simp add: L_def)
  show ?thesis using h Prune_idempotent [OF h] by simp
qed

text \<open>
  C10: \<open>Prune\<close> changes only byte 0 and byte 31 of its 32-byte operand: bytes 1 to 30 are
  the same after \<open>Prune\<close>, and the operand keeps its length.
\<close>

theorem Prune_frame:
  assumes "length x = 32" and "1 \<le> i" and "i \<le> 30"
  shows "Prune x ! i = x ! i \<and> length (Prune x) = 32"
  using assms by (simp add: Prune_nth_mid length_Prune)

theorem Prune_frame_witness:
  "length NegOne = 32 \<and> (1::nat) \<le> 15 \<and> (15::nat) \<le> 30
   \<and> Prune NegOne ! 15 = NegOne ! 15 \<and> length (Prune NegOne) = 32"
proof -
  have h: "length NegOne = 32" by (simp add: NegOne_def)
  have i: "(1::nat) \<le> 15" "(15::nat) \<le> 30" by simp_all
  show ?thesis using h i Prune_frame [OF h i] by simp
qed

section \<open>Constructors from machine integers: facts\<close>

lemma unat_neg_of_negative:
  fixes n :: "64 word"
  assumes "sint n < 0"
  shows "unat (- n) = nat \<bar>sint n\<bar>"
proof -
  have lo: "- (2 ^ 63) \<le> sint n"
    using sint_ge [of n] by simp
  have "- n = word_of_int (- sint n)"
    by simp
  then have "uint (- n) = uint (word_of_int (- sint n) :: 64 word)"
    by simp
  also have "\<dots> = take_bit 64 (- sint n)"
    by (simp only: uint_word_of_int_eq) simp
  also have "\<dots> = - sint n"
    using assms lo by (simp add: take_bit_int_eq_self)
  finally have "nat (uint (- n)) = nat (- sint n)"
    by simp
  then have "unat (- n) = nat (- sint n)"
    by (simp only: unat_eq_nat_uint)
  then show ?thesis using assms by simp
qed

lemma drop_bit_beyond_64:
  fixes v :: "64 word"
  assumes "8 \<le> i"
  shows "(ucast (drop_bit (8 * i) v) :: byte) = 0"
proof -
  have "LENGTH(64) \<le> 8 * i" using assms by simp
  then have "drop_bit (8 * i) v = 0" by (rule drop_bit_word_beyond)
  then show ?thesis by simp
qed

lemma upt8: "[0..<8] = [0, 1, 2, 3, 4, 5, 6, 7 :: nat]"
  by code_simp

lemma SetUint64_list:
  "SetUint64 n =
    [ucast n, ucast (drop_bit 8 n), ucast (drop_bit 16 n), ucast (drop_bit 24 n),
     ucast (drop_bit 32 n), ucast (drop_bit 40 n), ucast (drop_bit 48 n), ucast (drop_bit 56 n)]
    @ replicate 24 0"
proof -
  have "take 8 Zero = [0, 0, 0, 0, 0, 0, 0, 0]"
    unfolding Zero_def by code_simp
  moreover have "drop 8 Zero = replicate 24 0"
    by (simp add: Zero_def)
  ultimately show ?thesis
    by (simp add: SetUint64_def PutUint64_def)
qed

lemma le_bytes_unat:
  "le_bytes k (unat (v :: 64 word)) = map (\<lambda>i. ucast (drop_bit (8 * i) v)) [0..<k]"
proof (induction k arbitrary: v)
  case 0
  show ?case by simp
next
  case (Suc k)
  have hd: "(of_nat (unat v) :: byte) = ucast v"
    by simp
  have "unat (drop_bit 8 v) = drop_bit 8 (unat v)"
    by (rule unat_drop_bit_eq)
  also have "\<dots> = unat v div 2 ^ 8"
    by (rule drop_bit_eq_div)
  finally have tl: "unat v div 256 = unat (drop_bit 8 v)"
    by simp
  have "le_bytes (Suc k) (unat v) = ucast v # le_bytes k (unat (drop_bit 8 v))"
    by (simp only: le_bytes.simps hd tl)
  also have "\<dots> = ucast v # map (\<lambda>i. ucast (drop_bit (8 * i) (drop_bit 8 v))) [0..<k]"
    by (simp only: Suc.IH)
  also have "\<dots> = ucast v # map (\<lambda>i. ucast (drop_bit (8 * Suc i) v)) [0..<k]"
    by (simp add: add.commute)
  also have "\<dots> = map (\<lambda>i. ucast (drop_bit (8 * i) v)) [0..<Suc k]"
    by (simp add: map_upt_Suc del: upt_Suc)
  finally show ?case .
qed

lemma SetUint64_le_bytes: "SetUint64 n = le_bytes 32 (unat n)"
proof -
  let ?f = "\<lambda>i. (ucast (drop_bit (8 * i) n) :: byte)"
  have "[0..<32] = [0..<8] @ [8..<32]"
    using upt_add_eq_append [of 0 8 24] by simp
  then have "map ?f [0..<32] = map ?f [0..<8] @ map ?f [8..<32]"
    by simp
  moreover have "map ?f [8..<32] = map (\<lambda>i. 0) [8..<32]"
  proof (rule map_cong [OF refl])
    fix i :: nat
    assume "i \<in> set [8..<32]"
    then have "8 \<le> i"
      by (simp only: set_upt atLeastLessThan_iff)
    then show "?f i = 0"
      by (rule drop_bit_beyond_64)
  qed
  moreover have "map (\<lambda>i. 0 :: byte) [8..<32] = replicate 24 0"
    by (simp only: map_replicate_const length_upt) simp
  moreover have "map ?f [0..<8] =
    [ucast n, ucast (drop_bit 8 n), ucast (drop_bit 16 n), ucast (drop_bit 24 n),
     ucast (drop_bit 32 n), ucast (drop_bit 40 n), ucast (drop_bit 48 n), ucast (drop_bit 56 n)]"
    by (simp only: upt8) simp
  ultimately show ?thesis
    by (simp only: SetUint64_list le_bytes_unat)
qed

lemma le_nat_SetUint64: "le_nat (SetUint64 n) = unat n"
proof -
  have "unat n < 2 ^ 64"
    using unsigned_less [of n, where ?'a = nat] by simp
  then have "unat n < 256 ^ 32" by simp
  then show ?thesis
    by (simp only: SetUint64_le_bytes le_nat_le_bytes mod_less)
qed

lemma unat_of_nonnegative:
  fixes n :: "64 word"
  assumes "0 \<le> sint n"
  shows "unat n = nat (sint n)"
proof -
  have hi: "sint n < 2 ^ 63"
    using sint_lt [of n] by simp
  have "uint n = take_bit 64 (sint n)"
    using uint_sint [of n] by simp
  also have "\<dots> = sint n"
    using assms hi by (simp add: take_bit_int_eq_self)
  finally have "nat (uint n) = nat (sint n)"
    by simp
  then show ?thesis
    by (simp only: unat_eq_nat_uint)
qed

lemma group_order_gt: "2 ^ 64 < group_order"
  by (simp add: group_order_def)

text \<open>
  C6: for every \<open>int64\<close> \<open>n\<close>: when \<open>n \<ge> 0\<close>, \<open>SetInt64 n\<close> is the scalar
  \<open>SetUint64 n\<close>; when \<open>n < 0\<close>, it is the little-endian encoding of the magnitude
  \<open>|n|\<close> and not of \<open>L + n\<close>. This includes the most negative value \<open>-2^63\<close>, whose
  wrapping negation is itself and which reads as \<open>2^63\<close> once converted to \<open>uint64\<close>.
\<close>

theorem SetInt64_magnitude:
  fixes n :: "64 word"
  shows "(0 \<le> sint n \<longrightarrow>
            SetInt64 n = SetUint64 n \<and> le_nat (SetInt64 n) = nat (sint n))
       \<and> (sint n < 0 \<longrightarrow>
            SetInt64 n = le_bytes 32 (nat \<bar>sint n\<bar>)
          \<and> le_nat (SetInt64 n) = nat \<bar>sint n\<bar>
          \<and> int (le_nat (SetInt64 n)) \<noteq> int group_order + sint n)"
proof (cases "0 \<le> sint n")
  case True
  then have "0 \<le>s n"
    by (simp add: word_sle_eq)
  then have "SetInt64 n = SetUint64 n"
    by (simp add: SetInt64_def)
  moreover have "le_nat (SetUint64 n) = nat (sint n)"
    using True by (simp only: le_nat_SetUint64 unat_of_nonnegative)
  ultimately show ?thesis using True by simp
next
  case False
  then have neg: "sint n < 0" by simp
  then have "\<not> 0 \<le>s n"
    by (simp add: word_sle_eq)
  then have eq: "SetInt64 n = SetUint64 (- n)"
    by (simp add: SetInt64_def)
  have mag: "unat (- n) = nat \<bar>sint n\<bar>"
    using neg by (rule unat_neg_of_negative)
  have enc: "SetInt64 n = le_bytes 32 (nat \<bar>sint n\<bar>)"
    by (simp only: eq SetUint64_le_bytes mag)
  have val: "le_nat (SetInt64 n) = nat \<bar>sint n\<bar>"
    by (simp only: eq le_nat_SetUint64 mag)
  have "- (2 ^ 63) \<le> sint n"
    using sint_ge [of n] by simp
  then have "int (nat \<bar>sint n\<bar>) \<noteq> int group_order + sint n"
    using neg group_order_gt by simp
  then have "int (le_nat (SetInt64 n)) \<noteq> int group_order + sint n"
    unfolding val .
  then show ?thesis using neg enc val by simp
qed

theorem SetInt64_magnitude_witness:
  "sint (- 5 :: 64 word) < 0 \<and> le_nat (SetInt64 (- 5)) = 5
   \<and> sint (- 9223372036854775808 :: 64 word) < 0
   \<and> le_nat (SetInt64 (- 9223372036854775808)) = 2 ^ 63
   \<and> 0 \<le> sint (7 :: 64 word) \<and> SetInt64 7 = SetUint64 7"
  using SetInt64_magnitude [of "- 5"] SetInt64_magnitude [of "- 9223372036854775808"]
    SetInt64_magnitude [of 7]
  by (simp add: le_nat_le_bytes)

section \<open>Equality: facts\<close>

lemma unat_ucast_byte: "unat (ucast (v :: byte) :: 32 word) = unat v"
proof -
  have "unat v < 2 ^ 32"
    using unat_byte_less [of v] by simp
  then show ?thesis
    by (simp add: unsigned_ucast_eq take_bit_nat_eq_self)
qed

lemma xor_eq_0_iff_byte: "(x XOR y = 0) = (x = (y :: byte))"
  by (metis bit.xor_left_self xor.right_neutral)

lemma ConstantTimeByteEq_eq: "ConstantTimeByteEq x y = (if x = y then 1 else 0)"
proof (cases "x = y")
  case True
  then show ?thesis by (simp add: ConstantTimeByteEq_def)
next
  case False
  define w :: "32 word" where "w = ucast (x XOR y)"
  have "x XOR y \<noteq> 0"
    using False by (simp add: xor_eq_0_iff_byte)
  then have "unat (x XOR y) \<noteq> 0"
    by (simp add: unat_eq_0)
  moreover have "unat (x XOR y) < 256"
    by (rule unat_byte_less)
  moreover have "unat w = unat (x XOR y)"
    unfolding w_def by (rule unat_ucast_byte)
  ultimately have w: "0 < unat w" "unat w < 256"
    by simp_all
  then have "1 \<le> w"
    by (simp add: word_le_nat_alt)
  then have "unat (w - 1) = unat w - 1"
    by (simp add: unat_sub)
  then have "unat (w - 1) < 2 ^ 31"
    using w by simp
  then have "unat (w - 1) div 2 ^ 31 = 0"
    by simp
  moreover have "unat (drop_bit 31 (w - 1)) = drop_bit 31 (unat (w - 1))"
    by (rule unat_drop_bit_eq)
  moreover have "drop_bit 31 (unat (w - 1)) = unat (w - 1) div 2 ^ 31"
    by (rule drop_bit_eq_div)
  ultimately have "unat (drop_bit 31 (w - 1)) = 0"
    by simp
  then have "drop_bit 31 (w - 1) = 0"
    by (simp only: unat_eq_0)
  then show ?thesis
    using False by (simp add: ConstantTimeByteEq_def w_def)
qed

lemma or_fold_eq_0_iff:
  "foldl (\<lambda>v i. v OR (x ! i XOR y ! i)) v0 [0..<n] = (0 :: byte)
     \<longleftrightarrow> v0 = 0 \<and> (\<forall>i<n. x ! i = y ! i)"
proof (induction n)
  case 0
  show ?case by simp
next
  case (Suc n)
  have "foldl (\<lambda>v i. v OR (x ! i XOR y ! i)) v0 [0..<Suc n]
      = foldl (\<lambda>v i. v OR (x ! i XOR y ! i)) v0 [0..<n] OR (x ! n XOR y ! n)"
    by simp
  then show ?case
    using Suc.IH by (auto simp: or_eq_0_iff xor_eq_0_iff_byte less_Suc_eq)
qed

lemma ConstantTimeCompare_eq: "ConstantTimeCompare x y = (if x = y then 1 else 0)"
proof (cases "length x = length y")
  case False
  then have "x \<noteq> y" by auto
  then show ?thesis using False by (simp add: ConstantTimeCompare_def)
next
  case True
  have "ConstantTimeCompare x y
      = (if (\<forall>i<length x. x ! i = y ! i) then 1 else 0)"
    using True by (simp add: ConstantTimeCompare_def ConstantTimeByteEq_eq or_fold_eq_0_iff)
  also have "(\<forall>i<length x. x ! i = y ! i) \<longleftrightarrow> x = y"
    using True by (simp add: list_eq_iff_nth_eq)
  finally show ?thesis .
qed

lemma Equal_eq: "Equal z x \<longleftrightarrow> x = z"
  by (simp add: Equal_def ConstantTimeCompare_eq)

lemma flip_bit_neq:
  assumes "k < 8"
  shows "b XOR push_bit k 1 \<noteq> (b :: byte)"
proof
  assume "b XOR push_bit k 1 = b"
  then have "b XOR (b XOR push_bit k 1) = b XOR b"
    by simp
  then have "(push_bit k 1 :: byte) = 0"
    by (simp flip: xor.assoc)
  then show False
    using assms by (simp add: push_bit_eq_mult exp_eq_zero_iff)
qed

text \<open>
  C5: for all scalars \<open>x\<close> and \<open>y\<close>, \<open>Equal\<close> is true exactly when they agree on all 32
  bytes: \<open>Equal x x\<close> holds, and \<open>Equal x y\<close> is false as soon as one byte differs, also
  when the difference is one bit of one byte.
\<close>

theorem Equal_bytewise:
  assumes "length x = 32" and "length y = 32"
  shows "(Equal x y \<longleftrightarrow> (\<forall>i<32. x ! i = y ! i))
       \<and> Equal x x
       \<and> ((\<exists>i<32. x ! i \<noteq> y ! i) \<longrightarrow> \<not> Equal x y)
       \<and> (\<forall>i<32. \<forall>k<8. \<not> Equal x (x[i := x ! i XOR push_bit k 1]))"
proof -
  have iff: "Equal x y \<longleftrightarrow> (\<forall>i<32. x ! i = y ! i)"
    using assms by (auto simp: Equal_eq list_eq_iff_nth_eq)
  have same: "Equal x x"
    by (simp add: Equal_eq)
  have flip: "\<not> Equal x (x[i := x ! i XOR push_bit k 1])" if "i < 32" and "k < 8" for i k
  proof
    assume "Equal x (x[i := x ! i XOR push_bit k 1])"
    then have "x[i := x ! i XOR push_bit k 1] = x"
      by (simp add: Equal_eq)
    then have "x[i := x ! i XOR push_bit k 1] ! i = x ! i"
      by simp
    then have "x ! i XOR push_bit k 1 = x ! i"
      using assms(1) that(1) by simp
    then show False
      using flip_bit_neq [OF that(2)] by simp
  qed
  show ?thesis using iff same flip by blast
qed

theorem Equal_bytewise_witness:
  "length L = 32 \<and> length NegOne = 32 \<and> Equal L L \<and> \<not> Equal L NegOne
   \<and> NegOne = L[0 := L ! 0 XOR push_bit 0 1]"
proof -
  have h: "length L = 32" "length NegOne = 32"
    by (simp_all add: L_def NegOne_def)
  have d: "L ! 0 \<noteq> NegOne ! 0"
    by (simp add: L_def NegOne_def)
  have e: "NegOne = L[0 := L ! 0 XOR push_bit 0 1]"
    by (simp add: L_def NegOne_def)
  from d have "\<exists>i<32. L ! i \<noteq> NegOne ! i"
    by (intro exI [of _ 0]) simp
  then show ?thesis using h e Equal_bytewise [OF h] by simp
qed

section \<open>The arithmetic engine: facts\<close>

lemma group_order_pos: "0 < group_order"
  by (simp add: group_order_def)

lemma group_order_less: "group_order < 256 ^ 32"
  by (simp add: group_order_def)

lemma le_nat_replicate_0: "le_nat (replicate n 0) = 0"
  by (induction n) simp_all

lemma le_bytes_0: "le_bytes n 0 = replicate n 0"
  by (induction n) simp_all

lemma le_nat_Zero: "le_nat Zero = 0"
  by (simp add: Zero_def le_nat_replicate_0)

lemma le_nat_One: "le_nat One = 1"
  by (simp add: One_def le_nat_replicate_0)

lemma le_nat_L: "le_nat L = group_order"
  by (simp add: L_def group_order_def)

lemma le_nat_NegOne: "le_nat NegOne = group_order - 1"
  by (simp add: NegOne_def group_order_def)

lemma le_nat_canonical:
  "le_nat (le_bytes 32 (v mod group_order)) = v mod group_order"
proof -
  have "v mod group_order < group_order"
    using group_order_pos by simp
  then have "v mod group_order < 256 ^ 32"
    using group_order_less by (rule less_trans)
  then show ?thesis
    by (simp only: le_nat_le_bytes mod_less)
qed

lemma le_nat_ScMulAdd:
  "le_nat (ScMulAdd a b c) = (le_nat a * le_nat b + le_nat c) mod group_order"
  by (simp only: ScMulAdd_def le_nat_canonical)

lemma le_nat_ScReduce: "le_nat (ScReduce x) = le_nat x mod group_order"
  by (simp only: ScReduce_def le_nat_canonical)

text \<open>
  C1: for all scalars \<open>a\<close>, \<open>b\<close>, \<open>c\<close>, \<open>MulAdd a b c\<close> is the canonical representative
  of \<open>a*b + c\<close> modulo \<open>L\<close>, a 32-byte value in \<open>[0, L)\<close>, and it is the same scalar as
  \<open>Add (Mul a b) c\<close>.
\<close>

theorem MulAdd_canonical:
  "le_nat (MulAdd a b c) = (le_nat a * le_nat b + le_nat c) mod group_order
   \<and> le_nat (MulAdd a b c) < group_order
   \<and> length (MulAdd a b c) = 32
   \<and> MulAdd a b c = Add (Mul a b) c"
proof -
  have val: "le_nat (MulAdd a b c) = (le_nat a * le_nat b + le_nat c) mod group_order"
    by (simp only: MulAdd_def le_nat_ScMulAdd)
  have bound: "le_nat (MulAdd a b c) < group_order"
    using group_order_pos by (simp only: val) simp
  have len: "length (MulAdd a b c) = 32"
    by (simp only: MulAdd_def ScMulAdd_def length_le_bytes)
  have "le_nat (Mul a b) = (le_nat a * le_nat b) mod group_order"
    by (simp add: Mul_def MulAdd_def le_nat_ScMulAdd le_nat_Zero)
  then have "(le_nat (Mul a b) * le_nat One + le_nat c) mod group_order
           = (le_nat a * le_nat b + le_nat c) mod group_order"
    by (simp add: le_nat_One mod_add_left_eq)
  then have derived: "MulAdd a b c = Add (Mul a b) c"
    by (simp only: Add_def MulAdd_def ScMulAdd_def)
  show ?thesis using val bound len derived by simp
qed

text \<open>
  C2: for every 64-byte little-endian input \<open>w\<close>, \<open>Reduce w\<close> is a 32-byte value in
  \<open>[0, L)\<close> that equals \<open>w mod L\<close>.
\<close>

theorem Reduce_canonical:
  assumes "length w = 64"
  shows "le_nat (Reduce w) = le_nat w mod group_order
       \<and> le_nat (Reduce w) < group_order
       \<and> length (Reduce w) = 32"
proof -
  have val: "le_nat (Reduce w) = le_nat w mod group_order"
    by (simp only: Reduce_def le_nat_ScReduce)
  have "le_nat (Reduce w) < group_order"
    using group_order_pos by (simp only: val) simp
  moreover have "length (Reduce w) = 32"
    by (simp only: Reduce_def ScReduce_def length_le_bytes)
  ultimately show ?thesis using val by simp
qed

theorem Reduce_canonical_witness:
  "length (replicate 64 (255 :: byte)) = 64
   \<and> le_nat (Reduce (replicate 64 255)) = le_nat (replicate 64 255) mod group_order
   \<and> le_nat (Reduce (replicate 64 255)) < group_order
   \<and> length (Reduce (replicate 64 255)) = 32"
proof -
  have h: "length (replicate 64 (255 :: byte)) = 64" by simp
  show ?thesis using h Reduce_canonical [OF h] by simp
qed

text \<open>
  C3: for all scalars \<open>x\<close> and \<open>y\<close>, \<open>Sub x y\<close> is \<open>x - y\<close> modulo \<open>L\<close>; it is the same
  scalar as \<open>Add x (Neg y)\<close>, and it is computed as \<open>MulAdd y NegOne x\<close>, where \<open>NegOne\<close>
  is \<open>-1\<close> modulo \<open>L\<close>.
\<close>

theorem Sub_correct:
  "int (le_nat (Sub x y)) = (int (le_nat x) - int (le_nat y)) mod int group_order
   \<and> Sub x y = Add x (Neg y)
   \<and> Sub x y = MulAdd y NegOne x
   \<and> int (le_nat NegOne) = (- 1) mod int group_order"
proof -
  let ?L = "int group_order"
  let ?X = "int (le_nat x)"
  let ?Y = "int (le_nat y)"
  have m1: "int (le_nat NegOne) = ?L - 1"
    using group_order_pos by (simp add: le_nat_NegOne of_nat_diff)
  have "(- 1) mod ?L = ?L - 1"
    using group_order_pos by (simp add: zmod_minus1)
  then have neg1: "int (le_nat NegOne) = (- 1) mod ?L"
    using m1 by simp
  have "int (le_nat (Sub x y)) = (?Y * (?L - 1) + ?X) mod ?L"
    by (simp add: Sub_def MulAdd_def le_nat_ScMulAdd zmod_int m1)
  also have "?Y * (?L - 1) + ?X = (?X - ?Y) + ?Y * ?L"
    by (simp add: algebra_simps)
  also have "((?X - ?Y) + ?Y * ?L) mod ?L = (?X - ?Y) mod ?L"
    by (rule mod_mult_self1)
  finally have val: "int (le_nat (Sub x y)) = (?X - ?Y) mod ?L" .
  have "le_nat (Neg y) = (le_nat y * le_nat NegOne) mod group_order"
    by (simp add: Neg_def MulAdd_def le_nat_ScMulAdd le_nat_Zero)
  then have "(le_nat x * le_nat One + le_nat (Neg y)) mod group_order
           = (le_nat y * le_nat NegOne + le_nat x) mod group_order"
    by (simp add: le_nat_One mod_add_right_eq add.commute)
  then have derived: "Sub x y = Add x (Neg y)"
    by (simp only: Sub_def Add_def MulAdd_def ScMulAdd_def)
  have impl: "Sub x y = MulAdd y NegOne x"
    by (simp only: Sub_def)
  show ?thesis using val derived impl neg1 by simp
qed

text \<open>
  C4: read as little-endian numbers, the byte literal \<open>NegOne\<close> is the byte literal \<open>L\<close>
  minus one, and \<open>L\<close> is the number \<open>2^252 + 27742317777372353535851937790883648493\<close>;
  so \<open>NegOne\<close> is the canonical encoding of \<open>-1\<close> modulo \<open>L\<close>, and
  \<open>Add NegOne One = Zero\<close>.
\<close>

theorem NegOne_is_L_minus_one:
  "le_nat NegOne = le_nat L - 1
   \<and> le_nat NegOne + 1 = le_nat L
   \<and> le_nat L = group_order
   \<and> le_nat NegOne < group_order
   \<and> Add NegOne One = Zero"
proof -
  have a: "le_nat NegOne + 1 = le_nat L"
    using group_order_pos by (simp add: le_nat_NegOne le_nat_L)
  have "(le_nat NegOne * le_nat One + le_nat One) mod group_order = 0"
    using a by (simp add: le_nat_One le_nat_L)
  then have "Add NegOne One = le_bytes 32 0"
    by (simp only: Add_def MulAdd_def ScMulAdd_def)
  then have wrap: "Add NegOne One = Zero"
    by (simp add: le_bytes_0 Zero_def)
  show ?thesis using a wrap le_nat_L by simp
qed

text \<open>
  C9: for every canonical scalar \<open>x\<close> (32 bytes, \<open>0 \<le> x < L\<close>): \<open>Add x Zero = x\<close>,
  \<open>Mul x One = x\<close> and \<open>Mul x Zero = Zero\<close>.
\<close>

theorem Add_Mul_identities:
  assumes "length x = 32" and "le_nat x < group_order"
  shows "Add x Zero = x \<and> Mul x One = x \<and> Mul x Zero = Zero"
proof -
  have rt: "le_bytes 32 (le_nat x) = x"
    using le_bytes_le_nat [of x] assms(1) by simp
  have "(le_nat x * le_nat One + le_nat Zero) mod group_order = le_nat x"
    using assms(2) by (simp add: le_nat_One le_nat_Zero)
  then have "Add x Zero = le_bytes 32 (le_nat x)"
    by (simp only: Add_def MulAdd_def ScMulAdd_def)
  then have add0: "Add x Zero = x"
    by (simp only: rt)
  have "(le_nat x * le_nat One + le_nat Zero) mod group_order = le_nat x"
    using assms(2) by (simp add: le_nat_One le_nat_Zero)
  then have "Mul x One = le_bytes 32 (le_nat x)"
    by (simp only: Mul_def MulAdd_def ScMulAdd_def)
  then have mul1: "Mul x One = x"
    by (simp only: rt)
  have "(le_nat x * le_nat Zero + le_nat Zero) mod group_order = 0"
    by (simp add: le_nat_Zero)
  then have "Mul x Zero = le_bytes 32 0"
    by (simp only: Mul_def MulAdd_def ScMulAdd_def)
  then have mul0: "Mul x Zero = Zero"
    by (simp add: le_bytes_0 Zero_def)
  show ?thesis using add0 mul1 mul0 by simp
qed

theorem Add_Mul_identities_witness:
  "length NegOne = 32 \<and> le_nat NegOne < group_order
   \<and> Add NegOne Zero = NegOne \<and> Mul NegOne One = NegOne \<and> Mul NegOne Zero = Zero"
proof -
  have h1: "length NegOne = 32"
    by (simp add: NegOne_def)
  have h2: "le_nat NegOne < group_order"
    by (simp add: NegOne_def group_order_def)
  show ?thesis using h1 h2 Add_Mul_identities [OF h1 h2] by simp
qed

end
